theory Spec2Isabelle
  imports Main
begin

section \<open>Data model\<close>

text \<open>
  A Huffman tree as the engine sees it: \<open>huffman.TreeLeaf\<close> carries a value, which is a
  symbol (a Python int, never negative for a tree built from byte frequencies) or Python's
  \<open>None\<close>, the end-of-stream sentinel; \<open>huffman.TreeBranch\<close> has a left and a right child.
\<close>

datatype tree = TreeLeaf "nat option" | TreeBranch tree tree

text \<open>The exceptions that can leave the functions of \<open>util.py\<close>.\<close>

datatype error = EOFError | UnpicklingError | NameError | KeyError "nat option"

text \<open>
  A readable binary file: its bytes and the read position. Bytes are natural numbers;
  a well-formed file holds values below 256 only.
\<close>

record file_stream =
  content :: "nat list"
  pos :: nat

definition seek :: "nat \<Rightarrow> file_stream \<Rightarrow> file_stream" where
  "seek n f = f\<lparr>pos := n\<rparr>"

text \<open>
  What a function leaves behind: the exception raised together with the bytes of the
  output stream at that moment (\<open>Inl\<close>), or the bytes of the output stream at normal
  return (\<open>Inr\<close>).
\<close>

type_synonym outcome = "error \<times> nat list + nat list"

section \<open>Bit streams\<close>

text \<open>
  Modelled from the spec: the module \<open>bitio\<close> (classes \<open>BitReader\<close> and \<open>BitWriter\<close>) is
  not among the sources. The spec gives the capabilities \<open>readbit() -> 0|1\<close> and
  \<open>readbits(n) -> unsigned integer of n bits\<close>, both failing with stream exhaustion
  (Python's \<open>EOFError\<close> in \<open>util.py\<close>), and \<open>writebit\<close>, \<open>writebits(value, n)\<close> and
  \<open>flush()\<close>, which pads the partial byte with 0 bits and emits it and does nothing when
  no bit is pending. Bits are booleans (\<open>True\<close> is 1); within a byte the first bit is the
  most significant one.
\<close>

text \<open>
  Modelled from the spec: the \<open>n\<close> bits that \<open>writebits(value, n)\<close> writes for \<open>value\<close>, the
  most significant first (\<open>bitio\<close> is missing).
\<close>

fun bits_of :: "nat \<Rightarrow> nat \<Rightarrow> bool list" where
  "bits_of v 0 = []"
| "bits_of v (Suc n) = odd (v div 2 ^ n) # bits_of v n"

text \<open>
  Modelled from the spec: the unsigned integer that \<open>readbits\<close> makes of the bits it read,
  and the byte that the writer makes of eight bits (\<open>bitio\<close> is missing).
\<close>

definition value_of :: "bool list \<Rightarrow> nat" where
  "value_of bs = foldl (\<lambda>v b. 2 * v + (if b then 1 else 0)) 0 bs"

type_synonym bit_reader = "bool list"

text \<open>
  Modelled from the spec: \<open>bitio.BitReader\<close>, which is missing. A reader over a byte
  source holds the bits that have not been read yet.
\<close>

definition BitReader :: "nat list \<Rightarrow> bit_reader" where
  "BitReader bytes = concat (map (\<lambda>b. bits_of b 8) bytes)"

text \<open>
  Modelled from the spec: \<open>BitReader.readbit\<close>, which is missing; \<open>None\<close> is the failure
  by exhaustion, \<open>EOFError\<close>.
\<close>

definition readbit :: "bit_reader \<Rightarrow> (bool \<times> bit_reader) option" where
  "readbit rd = (case rd of [] \<Rightarrow> None | b # rd' \<Rightarrow> Some (b, rd'))"

text \<open>
  Modelled from the spec: \<open>BitReader.readbits\<close>, which is missing; it fails when fewer
  than \<open>n\<close> bits remain.
\<close>

definition readbits :: "nat \<Rightarrow> bit_reader \<Rightarrow> (nat \<times> bit_reader) option" where
  "readbits n rd = (if length rd < n then None else Some (value_of (take n rd), drop n rd))"

text \<open>
  Modelled from the spec: \<open>bitio.BitWriter\<close>, which is missing. The writer holds the byte
  stream it writes to and the bits of the byte that is not complete yet.
\<close>

record bit_writer =
  stream :: "nat list"
  pending :: "bool list"

text \<open>
  Modelled from the spec: the constructor of \<open>bitio.BitWriter\<close>, which is missing; a new
  writer over a stream has no bit pending.
\<close>

definition BitWriter :: "nat list \<Rightarrow> bit_writer" where
  "BitWriter out = \<lparr>stream = out, pending = []\<rparr>"

text \<open>
  Modelled from the spec: \<open>BitWriter.writebit\<close>, which is missing; the eighth pending bit
  completes a byte, which goes to the stream.
\<close>

definition writebit :: "bool \<Rightarrow> bit_writer \<Rightarrow> bit_writer" where
  "writebit on w =
     (let p = pending w @ [on]
      in if length p = 8 then \<lparr>stream = stream w @ [value_of p], pending = []\<rparr>
         else w\<lparr>pending := p\<rparr>)"

text \<open>Modelled from the spec: \<open>BitWriter.writebits\<close>, which is missing.\<close>

definition writebits :: "nat \<Rightarrow> nat \<Rightarrow> bit_writer \<Rightarrow> bit_writer" where
  "writebits v n w = fold writebit (bits_of v n) w"

text \<open>
  Modelled from the spec: \<open>BitWriter.flush\<close>, which is missing; it pads the partial byte
  with 0 bits up to the byte boundary and emits it, and does nothing when no bit is pending.
\<close>

definition flush :: "bit_writer \<Rightarrow> bit_writer" where
  "flush w =
     (if pending w = [] then w
      else \<lparr>stream = stream w @ [value_of (pending w @ replicate (8 - length (pending w)) False)],
            pending = []\<rparr>)"

section \<open>The encoding table\<close>

text \<open>
  Modelled from the spec: \<open>huffman.make_encoding_table\<close> is not among the sources. The
  spec has it walk the tree depth-first from the root, accumulating the path (0 for a
  left edge, 1 for a right edge) and recording \<open>value -> path\<close> at every leaf. The table
  is a dictionary, so a value that labels several leaves keeps the path recorded last.
\<close>

type_synonym table = "nat option \<rightharpoonup> bool list"

text \<open>
  Modelled from the spec: the depth-first walk inside \<open>huffman.make_encoding_table\<close>, which
  is missing: left subtree first, then the right one.
\<close>

fun recurse :: "tree \<Rightarrow> bool list \<Rightarrow> table \<Rightarrow> table" where
  "recurse (TreeLeaf v) path tbl = tbl(v \<mapsto> path)"
| "recurse (TreeBranch l r) path tbl = recurse r (path @ [True]) (recurse l (path @ [False]) tbl)"

text \<open>
  Modelled from the spec: \<open>huffman.make_encoding_table\<close>, which is missing; the walk
  starts at the root with the empty path and the empty table.
\<close>

definition make_encoding_table :: "tree \<Rightarrow> table" where
  "make_encoding_table t = recurse t [] Map.empty"

section \<open>The engine of util.py\<close>

text \<open>
  \<open>pickle.load\<close> and \<open>pickle.dump\<close> belong to Python's library; they are parameters here.
  \<open>load bytes\<close> is given the bytes from the read position on and answers with an
  exception or with the object read and the number of bytes it consumed; the object is a
  tree or Python's \<open>None\<close>. \<open>dump tree\<close> is the description written for a tree.
\<close>

type_synonym loader = "nat list \<Rightarrow> error + tree option \<times> nat"
type_synonym dumper = "tree \<Rightarrow> nat list"

text \<open>
  \<open>read_tree\<close>: rewind, unpickle. The handler of \<open>EOFError\<close> prints a message and then
  evaluates \<open>return NONE\<close>; no name \<open>NONE\<close> is bound anywhere, so the handler raises
  \<open>NameError\<close>. Any other exception of \<open>pickle.load\<close> passes through.
\<close>

definition read_tree :: "loader \<Rightarrow> file_stream \<Rightarrow> error + tree option \<times> file_stream" where
  "read_tree load tree_stream =
     (let s = seek 0 tree_stream
      in case load (drop (pos s) (content s)) of
           Inr (obj, n) \<Rightarrow> Inr (obj, s\<lparr>pos := pos s + n\<rparr>)
         | Inl e \<Rightarrow> (if e = EOFError then Inl NameError else Inl e))"

text \<open>
  \<open>decode_byte\<close>: the loop runs while the node is not a leaf; the node only ever moves to
  a child, so the loop is a recursion on the tree. Exhaustion of the reader makes the
  function return \<open>None\<close>.
\<close>

fun decode_byte :: "tree \<Rightarrow> bit_reader \<Rightarrow> nat option \<times> bit_reader" where
  "decode_byte (TreeLeaf v) rd = (v, rd)"
| "decode_byte (TreeBranch l r) rd =
     (case readbit rd of
        None \<Rightarrow> (None, rd)
      | Some (current_bit, rd') \<Rightarrow>
          if current_bit then decode_byte r rd' else decode_byte l rd')"

text \<open>
  The loop of \<open>decompress\<close>, \<open>while value != None\<close>. It need not end (a tree that is a
  single leaf with a symbol yields that symbol for ever), so not returning is the value
  \<open>None\<close> of the result.
\<close>

partial_function (option) decode_loop ::
  "tree \<Rightarrow> nat option \<Rightarrow> bit_reader \<Rightarrow> bit_writer \<Rightarrow> (bit_reader \<times> bit_writer) option" where
  "decode_loop tree_root val rd w =
     (case val of
        None \<Rightarrow> Some (rd, w)
      | Some v \<Rightarrow>
          (case decode_byte tree_root rd of
             (val', rd') \<Rightarrow> decode_loop tree_root val' rd' (writebits v 8 w)))"

definition decompress :: "loader \<Rightarrow> file_stream \<Rightarrow> nat list \<Rightarrow> outcome option" where
  "decompress load compressed uncompressed =
     (case read_tree load compressed of
        Inl e \<Rightarrow> Some (Inl (e, uncompressed))
      | Inr (tree_root, compressed') \<Rightarrow>
          (case tree_root of
             None \<Rightarrow> Some (Inr uncompressed)
           | Some t \<Rightarrow>
               (let my_bit_reader = BitReader (drop (pos compressed') (content compressed'));
                    my_bit_writer = BitWriter uncompressed
                in case decode_byte t my_bit_reader of
                     (val, rd) \<Rightarrow>
                       map_option (\<lambda>(rd', w). Inr (stream (flush w)))
                         (decode_loop t val rd my_bit_writer))))"

definition write_tree :: "dumper \<Rightarrow> tree \<Rightarrow> bit_writer \<Rightarrow> bit_writer" where
  "write_tree dump t w = w\<lparr>stream := stream w @ dump t\<rparr>"

text \<open>
  The loop of \<open>compress\<close>. A symbol without an entry makes \<open>table[byte]\<close> raise
  \<open>KeyError\<close>, which the handler of \<open>EOFError\<close> does not catch; at the end of the input
  the handler looks up \<open>table[None]\<close>, which raises \<open>KeyError\<close> when there is no such entry.
\<close>

function encode_loop :: "table \<Rightarrow> bit_reader \<Rightarrow> bit_writer \<Rightarrow> error \<times> bit_writer + bit_writer" where
  "encode_loop tbl rd w =
     (case readbits 8 rd of
        Some (byte, rd') \<Rightarrow>
          (case tbl (Some byte) of
             None \<Rightarrow> Inl (KeyError (Some byte), w)
           | Some code \<Rightarrow> encode_loop tbl rd' (fold writebit code w))
      | None \<Rightarrow>
          (case tbl None of
             None \<Rightarrow> Inl (KeyError None, w)
           | Some code \<Rightarrow> Inr (fold writebit code w)))"
  by pat_completeness auto
termination
  by (relation "measure (\<lambda>(tbl, rd, w). length rd)") (auto simp: readbits_def split: if_splits)

declare encode_loop.simps [simp del]

definition compress :: "dumper \<Rightarrow> tree \<Rightarrow> nat list \<Rightarrow> nat list \<Rightarrow> outcome" where
  "compress dump t uncompressed compressed =
     (let my_bit_writer = BitWriter compressed;
          w = write_tree dump t my_bit_writer;
          my_bit_reader = BitReader uncompressed;
          tbl = make_encoding_table t
      in case encode_loop tbl my_bit_reader w of
           Inl (e, w') \<Rightarrow> Inl (e, stream w')
         | Inr w' \<Rightarrow> Inr (stream (flush w')))"

section \<open>Paths\<close>

text \<open>
  The traversal as the specification words it: from a node, bit 0 leads to the left
  child and bit 1 to the right child; a leaf has no way on.
\<close>

fun descend :: "tree \<Rightarrow> bool list \<Rightarrow> tree option" where
  "descend t [] = Some t"
| "descend (TreeLeaf v) (b # bs) = None"
| "descend (TreeBranch l r) (b # bs) = descend (if b then r else l) bs"

fun leaf_values :: "tree \<Rightarrow> nat option set" where
  "leaf_values (TreeLeaf v) = {v}"
| "leaf_values (TreeBranch l r) = leaf_values l \<union> leaf_values r"

text \<open>The bit source gives out before the traversal from a node reaches a leaf.\<close>

fun runs_out :: "tree \<Rightarrow> bool list \<Rightarrow> bool" where
  "runs_out (TreeLeaf v) bits = False"
| "runs_out (TreeBranch l r) [] = True"
| "runs_out (TreeBranch l r) (b # bits) = runs_out (if b then r else l) bits"

section \<open>The encoder over bytes\<close>

text \<open>
  The input of \<open>compress\<close> is read eight bits at a time, so the loop sees one byte of
  the input per round. \<open>encode_bytes\<close> is that loop as a recursion over the bytes, and
  \<open>encode_bits\<close> the bits of the entries of the symbols, one after the other.
\<close>

fun encode_bytes :: "table \<Rightarrow> nat list \<Rightarrow> bit_writer \<Rightarrow> error \<times> bit_writer + bit_writer" where
  "encode_bytes tbl [] w =
     (case tbl None of
        None \<Rightarrow> Inl (KeyError None, w)
      | Some code \<Rightarrow> Inr (fold writebit code w))"
| "encode_bytes tbl (b # bs) w =
     (case tbl (Some b) of
        None \<Rightarrow> Inl (KeyError (Some b), w)
      | Some code \<Rightarrow> encode_bytes tbl bs (fold writebit code w))"

definition encode_bits :: "table \<Rightarrow> nat list \<Rightarrow> bool list" where
  "encode_bits tbl bs = concat (map (\<lambda>b. case tbl (Some b) of None \<Rightarrow> [] | Some code \<Rightarrow> code) bs)"

section \<open>A concrete tree description\<close>

text \<open>
  A stand-in for \<open>pickle\<close> on which the engine can be run: a tree in preorder, 0 for the
  sentinel leaf, 1 and the symbol for a symbol leaf, 2 before the two children of a
  branch. As \<open>pickle.load\<close> does, the loader raises \<open>EOFError\<close> on an empty input and
  \<open>UnpicklingError\<close> on a description that is cut short or not a description.
\<close>

fun example_dump :: "tree \<Rightarrow> nat list" where
  "example_dump (TreeLeaf None) = [0]"
| "example_dump (TreeLeaf (Some v)) = [1, v]"
| "example_dump (TreeBranch l r) = 2 # example_dump l @ example_dump r"

fun parse :: "nat \<Rightarrow> nat list \<Rightarrow> (tree \<times> nat list) option" where
  "parse 0 bs = None"
| "parse (Suc k) [] = None"
| "parse (Suc k) (b # bs) =
     (if b = 0 then Some (TreeLeaf None, bs)
      else if b = 1 then (case bs of [] \<Rightarrow> None | v # bs' \<Rightarrow> Some (TreeLeaf (Some v), bs'))
      else if b = 2 then
        (case parse k bs of
           None \<Rightarrow> None
         | Some (l, bs') \<Rightarrow>
             (case parse k bs' of
                None \<Rightarrow> None
              | Some (r, bs'') \<Rightarrow> Some (TreeBranch l r, bs'')))
      else None)"

definition example_load :: loader where
  "example_load bs =
     (if bs = [] then Inl EOFError
      else case parse (length bs) bs of
             None \<Rightarrow> Inl UnpicklingError
           | Some (t, rest) \<Rightarrow> Inr (Some t, length bs - length rest))"

definition example_tree :: tree where
  "example_tree = TreeBranch (TreeLeaf (Some 97)) (TreeBranch (TreeLeaf (Some 98)) (TreeLeaf None))"

definition example_tree_no_sentinel :: tree where
  "example_tree_no_sentinel = TreeBranch (TreeLeaf (Some 97)) (TreeLeaf (Some 98))"

declare decode_loop.simps [code]

section \<open>Bits and bytes\<close>

lemma length_bits_of [simp]: "length (bits_of v n) = n"
  by (induction n) simp_all

lemma bits_of_snoc: "bits_of v (Suc n) = bits_of (v div 2) n @ [odd v]"
proof (induction n)
  case 0
  then show ?case by simp
next
  case (Suc n)
  have "v div 2 div 2 ^ n = v div 2 ^ Suc n"
    by (simp add: div_mult2_eq)
  with Suc show ?case by simp
qed

lemma value_of_Nil [simp]: "value_of [] = 0"
  by (simp add: value_of_def)

lemma value_of_snoc: "value_of (bs @ [b]) = 2 * value_of bs + (if b then 1 else 0)"
  by (simp add: value_of_def)

lemma value_of_bits_of: "value_of (bits_of v n) = v mod 2 ^ n"
proof (induction n arbitrary: v)
  case 0
  then show ?case by simp
next
  case (Suc n)
  have "v mod (2 * 2 ^ n) = 2 * (v div 2 mod 2 ^ n) + v mod 2"
    by (simp add: mod_mult2_eq)
  moreover have "v mod 2 = (if odd v then 1 else 0)"
    by (simp add: odd_iff_mod_2_eq_one)
  ultimately show ?case
    using Suc [of "v div 2"] by (simp only: bits_of_snoc value_of_snoc) simp
qed

lemma value_of_less: "value_of p < 2 ^ length p"
proof (induction p rule: rev_induct)
  case Nil
  then show ?case by simp
next
  case (snoc b p)
  then show ?case by (simp add: value_of_snoc)
qed

lemma bits_of_value_of: "length p = n \<Longrightarrow> bits_of (value_of p) n = p"
proof (induction p arbitrary: n rule: rev_induct)
  case Nil
  then show ?case by simp
next
  case (snoc b p)
  then obtain m where n: "n = Suc m" and m: "length p = m" by (cases n) auto
  have "(2 * value_of p + (if b then 1 else 0)) div 2 = value_of p" by simp
  moreover have "odd (2 * value_of p + (if b then 1 else 0)) = b" by simp
  ultimately show ?case
    using snoc.IH [OF m] unfolding n by (simp only: bits_of_snoc value_of_snoc) 
qed

lemma BitReader_append: "BitReader (xs @ ys) = BitReader xs @ BitReader ys"
  by (simp add: BitReader_def)

lemma BitReader_Nil [simp]: "BitReader [] = []"
  by (simp add: BitReader_def)

lemma BitReader_Cons: "BitReader (b # bs) = bits_of b 8 @ BitReader bs"
  by (simp add: BitReader_def)

lemma readbits_BitReader:
  "readbits 8 (BitReader (b # bs)) = Some (b mod 256, BitReader bs)"
  using value_of_bits_of [of b 8] by (simp add: readbits_def BitReader_Cons)

lemma length_BitReader: "length (BitReader bs) = 8 * length bs"
  by (induction bs) (simp_all add: BitReader_Cons)

lemma fold_writebit_partial:
  "length (pending w) + length bs < 8 \<Longrightarrow> fold writebit bs w = w\<lparr>pending := pending w @ bs\<rparr>"
proof (induction bs arbitrary: w)
  case Nil
  then show ?case by simp
next
  case (Cons b bs)
  have "writebit b w = w\<lparr>pending := pending w @ [b]\<rparr>"
    using Cons.prems by (simp add: writebit_def)
  then show ?case using Cons.IH [of "w\<lparr>pending := pending w @ [b]\<rparr>"] Cons.prems by simp
qed

lemma fold_writebit_full:
  assumes "length (pending w) + length bs = 8" and "bs \<noteq> []"
  shows "fold writebit bs w = \<lparr>stream = stream w @ [value_of (pending w @ bs)], pending = []\<rparr>"
proof -
  from assms(2) obtain bs' b where bs: "bs = bs' @ [b]" by (cases bs rule: rev_cases) auto
  have "fold writebit bs' w = w\<lparr>pending := pending w @ bs'\<rparr>"
    using assms(1) bs by (intro fold_writebit_partial) simp
  then show ?thesis using assms(1) bs by (simp add: writebit_def)
qed

lemma writebits_aligned:
  "pending w = [] \<Longrightarrow> writebits v 8 w = \<lparr>stream = stream w @ [v mod 256], pending = []\<rparr>"
proof -
  assume p: "pending w = []"
  have ne: "bits_of v 8 \<noteq> []"
    by (metis length_bits_of list.size(3) zero_neq_numeral)
  show ?thesis
    using fold_writebit_full [of w "bits_of v 8", OF _ ne] value_of_bits_of [of v 8] p
    by (simp add: writebits_def)
qed

lemma writebit_stream:
  assumes "length (pending w) < 8"
  shows "\<exists>ys. stream (writebit b w) = stream w @ ys
     \<and> BitReader ys @ pending (writebit b w) = pending w @ [b]
     \<and> length (pending (writebit b w)) < 8 \<and> (\<forall>y\<in>set ys. y < 256)"
proof (cases "length (pending w @ [b]) = 8")
  case True
  then have "bits_of (value_of (pending w @ [b])) 8 = pending w @ [b]"
    by (rule bits_of_value_of)
  then have "BitReader [value_of (pending w @ [b])] = pending w @ [b]"
    by (simp add: BitReader_def)
  moreover have "value_of (pending w @ [b]) < 256"
    using value_of_less [of "pending w @ [b]"] True by simp
  ultimately show ?thesis using True
    by (intro exI [of _ "[value_of (pending w @ [b])]"]) (simp add: writebit_def)
next
  case False
  with assms show ?thesis by (intro exI [of _ "[]"]) (simp add: writebit_def)
qed

lemma fold_writebit_stream:
  "length (pending w) < 8 \<Longrightarrow>
   \<exists>ys. stream (fold writebit bs w) = stream w @ ys
     \<and> BitReader ys @ pending (fold writebit bs w) = pending w @ bs
     \<and> length (pending (fold writebit bs w)) < 8 \<and> (\<forall>y\<in>set ys. y < 256)"
proof (induction bs arbitrary: w)
  case Nil
  then show ?case by simp
next
  case (Cons b bs)
  from writebit_stream [OF Cons.prems, of b] obtain ys where
    ys: "stream (writebit b w) = stream w @ ys"
        "BitReader ys @ pending (writebit b w) = pending w @ [b]"
        "length (pending (writebit b w)) < 8" "\<forall>y\<in>set ys. y < 256" by blast
  from Cons.IH [OF ys(3)] obtain zs where
    zs: "stream (fold writebit bs (writebit b w)) = stream (writebit b w) @ zs"
        "BitReader zs @ pending (fold writebit bs (writebit b w)) = pending (writebit b w) @ bs"
        "length (pending (fold writebit bs (writebit b w))) < 8" "\<forall>y\<in>set zs. y < 256" by blast
  have "BitReader (ys @ zs) @ pending (fold writebit bs (writebit b w)) = pending w @ b # bs"
    using ys(2) zs(2) by (simp add: BitReader_append)
  with ys(1) zs(1) zs(3) ys(4) zs(4) show ?case
    by (intro exI [of _ "ys @ zs"]) auto
qed

lemma flush_stream:
  assumes "length (pending w) < 8"
  shows "\<exists>ys k. stream (flush w) = stream w @ ys
     \<and> BitReader ys = pending w @ replicate k False \<and> k < 8 \<and> (\<forall>y\<in>set ys. y < 256)"
proof (cases "pending w = []")
  case True
  then show ?thesis by (intro exI [of _ "[]"] exI [of _ 0]) (simp add: flush_def)
next
  case False
  let ?p = "pending w @ replicate (8 - length (pending w)) False"
  have len: "length ?p = 8" using assms by simp
  then have "bits_of (value_of ?p) 8 = ?p" by (rule bits_of_value_of)
  then have "BitReader [value_of ?p] = ?p" by (simp add: BitReader_def)
  moreover have "value_of ?p < 256" using value_of_less [of ?p] len by simp
  ultimately show ?thesis using False assms
    by (intro exI [of _ "[value_of ?p]"] exI [of _ "8 - length (pending w)"]) (simp add: flush_def)
qed

lemma written_stream:
  assumes "length (pending w) < 8"
  shows "\<exists>ys k. stream (flush (fold writebit bs w)) = stream w @ ys
     \<and> BitReader ys = pending w @ bs @ replicate k False \<and> k < 8 \<and> (\<forall>y\<in>set ys. y < 256)"
proof -
  let ?w = "fold writebit bs w"
  from fold_writebit_stream [OF assms, of bs] obtain ys where
    ys: "stream ?w = stream w @ ys" "BitReader ys @ pending ?w = pending w @ bs"
        "length (pending ?w) < 8" "\<forall>y\<in>set ys. y < 256" by blast
  from flush_stream [OF ys(3)] obtain zs k where
    zs: "stream (flush ?w) = stream ?w @ zs" "BitReader zs = pending ?w @ replicate k False"
        "k < 8" "\<forall>y\<in>set zs. y < 256" by blast
  have "BitReader (ys @ zs) = (BitReader ys @ pending ?w) @ replicate k False"
    using zs(2) by (simp add: BitReader_append)
  then have "BitReader (ys @ zs) = pending w @ bs @ replicate k False"
    using ys(2) by simp
  with ys(1) zs(1) zs(3) ys(4) zs(4) show ?thesis
    by (intro exI [of _ "ys @ zs"] exI [of _ k]) auto
qed

section \<open>Decoding along a path\<close>

lemma decode_byte_descend:
  "descend t path = Some (TreeLeaf v) \<Longrightarrow> decode_byte t (path @ rest) = (v, rest)"
proof (induction t path rule: descend.induct)
  case (1 t)
  then show ?case by simp
next
  case (2 v b bs)
  then show ?case by simp
next
  case (3 l r b bs)
  then show ?case by (cases b) (simp_all add: readbit_def)
qed

section \<open>The table, the encoder and the decoder\<close>

lemma recurse_other: "k \<notin> leaf_values t \<Longrightarrow> recurse t path tbl k = tbl k"
  by (induction t arbitrary: path tbl) simp_all

lemma recurse_path:
  "k \<in> leaf_values t \<Longrightarrow>
   \<exists>q. recurse t path tbl k = Some (path @ q) \<and> descend t q = Some (TreeLeaf k)"
proof (induction t arbitrary: path tbl)
  case (TreeLeaf v)
  then show ?case by (intro exI [of _ "[]"]) simp
next
  case (TreeBranch l r)
  show ?case
  proof (cases "k \<in> leaf_values r")
    case True
    from TreeBranch.IH(2) [OF True, of "path @ [True]" "recurse l (path @ [False]) tbl"]
    obtain q where "recurse r (path @ [True]) (recurse l (path @ [False]) tbl) k
        = Some ((path @ [True]) @ q)" and "descend r q = Some (TreeLeaf k)" by blast
    then show ?thesis by (intro exI [of _ "True # q"]) simp
  next
    case False
    with TreeBranch.prems have inl: "k \<in> leaf_values l" by simp
    from TreeBranch.IH(1) [OF inl, of "path @ [False]" tbl]
    obtain q where "recurse l (path @ [False]) tbl k = Some ((path @ [False]) @ q)"
      and "descend l q = Some (TreeLeaf k)" by blast
    then show ?thesis using False
      by (intro exI [of _ "False # q"]) (simp add: recurse_other)
  qed
qed

lemma table_covered:
  "k \<in> leaf_values t \<Longrightarrow>
   \<exists>q. make_encoding_table t k = Some q \<and> descend t q = Some (TreeLeaf k)"
  using recurse_path [of k t "[]" Map.empty] by (simp add: make_encoding_table_def)

lemma table_uncovered: "k \<notin> leaf_values t \<Longrightarrow> make_encoding_table t k = None"
  by (simp add: make_encoding_table_def recurse_other)

lemma table_descend:
  "make_encoding_table t k = Some q \<Longrightarrow> descend t q = Some (TreeLeaf k)"
  using table_covered [of k t] table_uncovered [of k t] by (cases "k \<in> leaf_values t") auto

lemma encode_loop_bytes:
  "\<forall>b\<in>set S. b < 256 \<Longrightarrow> encode_loop tbl (BitReader S) w = encode_bytes tbl S w"
proof (induction S arbitrary: w)
  case Nil
  show ?case by (subst encode_loop.simps) (simp add: readbits_def)
next
  case (Cons b S)
  then have b: "b mod 256 = b" by simp
  show ?case
    using Cons by (subst encode_loop.simps) (simp add: readbits_BitReader b split: option.splits)
qed

lemma encode_bits_Cons:
  "tbl (Some b) = Some code \<Longrightarrow> encode_bits tbl (b # bs) = code @ encode_bits tbl bs"
  by (simp add: encode_bits_def)

lemma encode_bits_Nil [simp]: "encode_bits tbl [] = []"
  by (simp add: encode_bits_def)

lemma encode_bytes_done:
  "\<forall>b\<in>set S. tbl (Some b) \<noteq> None \<Longrightarrow> tbl None = Some sc \<Longrightarrow>
   encode_bytes tbl S w = Inr (fold writebit (encode_bits tbl S @ sc) w)"
proof (induction S arbitrary: w)
  case Nil
  then show ?case by simp
next
  case (Cons b S)
  then obtain code where code: "tbl (Some b) = Some code" by auto
  with Cons show ?case by (simp add: encode_bits_Cons)
qed

lemma encode_bytes_no_sentinel:
  "\<forall>b\<in>set S. tbl (Some b) \<noteq> None \<Longrightarrow> tbl None = None \<Longrightarrow>
   encode_bytes tbl S w = Inl (KeyError None, fold writebit (encode_bits tbl S) w)"
proof (induction S arbitrary: w)
  case Nil
  then show ?case by simp
next
  case (Cons b S)
  then obtain code where code: "tbl (Some b) = Some code" by auto
  with Cons show ?case by (simp add: encode_bits_Cons)
qed

lemma encode_bytes_missing:
  "\<forall>x\<in>set S1. tbl (Some x) \<noteq> None \<Longrightarrow> tbl (Some b) = None \<Longrightarrow>
   encode_bytes tbl (S1 @ b # S2) w = Inl (KeyError (Some b), fold writebit (encode_bits tbl S1) w)"
proof (induction S1 arbitrary: w)
  case Nil
  then show ?case by simp
next
  case (Cons x S1)
  then obtain code where code: "tbl (Some x) = Some code" by auto
  with Cons show ?case by (simp add: encode_bits_Cons)
qed

lemma runs_out_decode: "runs_out t bits \<Longrightarrow> decode_byte t bits = (None, [])"
  by (induction t bits rule: runs_out.induct) (auto simp: readbit_def split: if_splits)

lemma decode_loop_payload:
  assumes codes: "\<forall>(v, p)\<in>set ps. descend t p = Some (TreeLeaf (Some v))"
    and stop: "decode_byte t tail = (None, rest)"
  shows "decode_byte t (concat (map snd ps) @ tail) = (val, rd) \<Longrightarrow>
    decode_loop t val rd w = Some (rest, fold (\<lambda>(v, p). writebits v 8) ps w)"
  using codes
proof (induction ps arbitrary: val rd w)
  case Nil
  with stop show ?case by (simp add: decode_loop.simps)
next
  case (Cons vp ps)
  obtain v p where vp: "vp = (v, p)" by (cases vp)
  with Cons.prems have p: "descend t p = Some (TreeLeaf (Some v))" by simp
  have "decode_byte t (p @ (concat (map snd ps) @ tail)) = (Some v, concat (map snd ps) @ tail)"
    using p by (rule decode_byte_descend)
  with Cons.prems(1) vp have val: "val = Some v" and rd: "rd = concat (map snd ps) @ tail"
    by simp_all
  obtain val' rd' where next_byte: "decode_byte t (concat (map snd ps) @ tail) = (val', rd')"
    by (cases "decode_byte t (concat (map snd ps) @ tail)")
  have "decode_loop t val' rd' (writebits v 8 w)
      = Some (rest, fold (\<lambda>(v, p). writebits v 8) ps (writebits v 8 w))"
    using Cons.IH [OF next_byte] Cons.prems(2) by simp
  then show ?case
    unfolding val rd vp by (subst decode_loop.simps) (simp add: next_byte)
qed

lemma fold_writebits_aligned:
  "pending w = [] \<Longrightarrow>
   fold (\<lambda>(v, p). writebits v 8) ps w
     = \<lparr>stream = stream w @ map (\<lambda>(v, p). v mod 256) ps, pending = []\<rparr>"
proof (induction ps arbitrary: w)
  case Nil
  then show ?case by simp
next
  case (Cons vp ps)
  obtain v p where vp: "vp = (v, p)" by (cases vp)
  have "writebits v 8 w = \<lparr>stream = stream w @ [v mod 256], pending = []\<rparr>"
    using Cons.prems by (rule writebits_aligned)
  then show ?case using Cons.IH [of "\<lparr>stream = stream w @ [v mod 256], pending = []\<rparr>"] vp
    by simp
qed

lemma length_example_dump: "0 < length (example_dump t)"
  by (induction t rule: example_dump.induct) simp_all

lemma parse_example_dump:
  "size t < k \<Longrightarrow> parse k (example_dump t @ rest) = Some (t, rest)"
proof (induction t arbitrary: k rest rule: example_dump.induct)
  case 1
  then show ?case by (cases k) simp_all
next
  case (2 v)
  then show ?case by (cases k) simp_all
next
  case (3 l r)
  then obtain k' where k: "k = Suc k'" by (cases k) auto
  with "3.prems" have "size l < k'" "size r < k'" by simp_all
  then show ?case using "3.IH" k by simp
qed

lemma size_less_length_dump: "size t < length (example_dump t)"
  by (induction t rule: example_dump.induct) simp_all

lemma example_load_dump:
  "example_load (example_dump t @ rest) = Inr (Some t, length (example_dump t))"
proof -
  have "size t < length (example_dump t @ rest)"
    using size_less_length_dump [of t] by simp
  then have "parse (length (example_dump t @ rest)) (example_dump t @ rest) = Some (t, rest)"
    by (rule parse_example_dump)
  moreover have "example_dump t @ rest \<noteq> []"
    using length_example_dump [of t] by auto
  ultimately show ?thesis by (simp add: example_load_def)
qed

lemma decompress_payload:
  assumes ld: "load (content f) = Inr (Some t, n)"
    and bits: "BitReader (drop n (content f)) = concat (map snd ps) @ tail"
    and codes: "\<forall>(v, p)\<in>set ps. descend t p = Some (TreeLeaf (Some v))"
    and stop: "decode_byte t tail = (None, rest)"
  shows "decompress load f written = Some (Inr (written @ map (\<lambda>(v, p). v mod 256) ps))"
proof -
  have rt: "read_tree load f = Inr (Some t, f\<lparr>pos := n\<rparr>)"
    using ld by (simp add: read_tree_def seek_def)
  obtain val rd where d: "decode_byte t (concat (map snd ps) @ tail) = (val, rd)"
    by (cases "decode_byte t (concat (map snd ps) @ tail)")
  have "decode_loop t val rd (BitWriter written)
      = Some (rest, fold (\<lambda>(v, p). writebits v 8) ps (BitWriter written))"
    using codes stop d by (rule decode_loop_payload)
  moreover have "fold (\<lambda>(v, p). writebits v 8) ps (BitWriter written)
      = \<lparr>stream = written @ map (\<lambda>(v, p). v mod 256) ps, pending = []\<rparr>"
    using fold_writebits_aligned [of "BitWriter written" ps] by (simp add: BitWriter_def)
  ultimately show ?thesis
    by (simp add: decompress_def rt bits d flush_def)
qed

lemma encode_loop_done:
  assumes "\<forall>b\<in>set S. b < 256" and "\<forall>b\<in>set S. tbl (Some b) \<noteq> None" and "tbl None = Some sc"
  shows "encode_loop tbl (BitReader S) w = Inr (fold writebit (encode_bits tbl S @ sc) w)"
  using assms by (simp add: encode_loop_bytes encode_bytes_done)

lemma encode_loop_no_sentinel:
  assumes "\<forall>b\<in>set S. b < 256" and "\<forall>b\<in>set S. tbl (Some b) \<noteq> None" and "tbl None = None"
  shows "encode_loop tbl (BitReader S) w = Inl (KeyError None, fold writebit (encode_bits tbl S) w)"
  using assms by (simp add: encode_loop_bytes encode_bytes_no_sentinel)

lemma encode_loop_missing:
  assumes "\<forall>x\<in>set (S1 @ b # S2). x < 256" and "\<forall>x\<in>set S1. tbl (Some x) \<noteq> None"
    and "tbl (Some b) = None"
  shows "encode_loop tbl (BitReader (S1 @ b # S2)) w
    = Inl (KeyError (Some b), fold writebit (encode_bits tbl S1) w)"
  using assms encode_loop_bytes [of "S1 @ b # S2" tbl w] encode_bytes_missing [of S1 tbl b S2 w]
  by simp

lemma encode_bits_pairs:
  "encode_bits tbl S
     = concat (map snd (map (\<lambda>b. (b, case tbl (Some b) of None \<Rightarrow> [] | Some code \<Rightarrow> code)) S))"
  by (simp add: encode_bits_def comp_def)

section \<open>The claims\<close>

text \<open>
  C1: for every byte sequence \<open>S\<close> and every tree \<open>T\<close> whose leaves carry the sentinel and
  every byte of \<open>S\<close>, \<open>compress\<close> into a fresh stream succeeds, and \<open>decompress\<close> on the
  container, from any read position, appends exactly \<open>S\<close> to its output; this holds for
  the empty \<open>S\<close> as for any other. The tree description is read back as it was written.
\<close>

theorem compress_decompress_roundtrip:
  assumes codec: "\<forall>rest. load (dump T @ rest) = Inr (Some T, length (dump T))"
    and bytes: "\<forall>b\<in>set S. b < 256"
    and sentinel: "None \<in> leaf_values T"
    and cover: "\<forall>b\<in>set S. Some b \<in> leaf_values T"
  shows "\<exists>c. compress dump T S [] = Inr c
    \<and> decompress load \<lparr>content = c, pos = p\<rparr> written = Some (Inr (written @ S))"
proof -
  let ?tbl = "make_encoding_table T"
  let ?ps = "map (\<lambda>b. (b, case ?tbl (Some b) of None \<Rightarrow> [] | Some code \<Rightarrow> code)) S"
  from table_covered [OF sentinel] obtain sc where
    sc: "?tbl None = Some sc" "descend T sc = Some (TreeLeaf None)" by blast
  have entries: "\<forall>b\<in>set S. ?tbl (Some b) \<noteq> None"
    using cover table_covered by fastforce
  let ?w = "write_tree dump T (BitWriter [])"
  have w: "stream ?w = dump T" "pending ?w = []"
    by (simp_all add: write_tree_def BitWriter_def)
  have enc: "encode_loop ?tbl (BitReader S) ?w = Inr (fold writebit (encode_bits ?tbl S @ sc) ?w)"
    using bytes entries sc(1) by (rule encode_loop_done)
  from written_stream [of ?w "encode_bits ?tbl S @ sc"] w obtain ys k where
    ys: "stream (flush (fold writebit (encode_bits ?tbl S @ sc) ?w)) = dump T @ ys"
        "BitReader ys = encode_bits ?tbl S @ sc @ replicate k False" by auto
  have c: "compress dump T S [] = Inr (dump T @ ys)"
    using enc ys(1) by (simp add: compress_def)
  let ?f = "\<lparr>content = dump T @ ys, pos = p\<rparr>"
  have ld: "load (content ?f) = Inr (Some T, length (dump T))"
    using codec by simp
  have bits: "BitReader (drop (length (dump T)) (content ?f))
      = concat (map snd ?ps) @ (sc @ replicate k False)"
    using ys(2) encode_bits_pairs [of ?tbl S] by simp
  have codes: "\<forall>(v, q)\<in>set ?ps. descend T q = Some (TreeLeaf (Some v))"
  proof -
    have "descend T (case ?tbl (Some b) of None \<Rightarrow> [] | Some code \<Rightarrow> code)
        = Some (TreeLeaf (Some b))" if "b \<in> set S" for b
    proof -
      from that entries obtain q where q: "?tbl (Some b) = Some q" by auto
      then show ?thesis using table_descend [OF q] by simp
    qed
    then show ?thesis by auto
  qed
  have stop: "decode_byte T (sc @ replicate k False) = (None, replicate k False)"
    using sc(2) by (rule decode_byte_descend)
  have "decompress load ?f written = Some (Inr (written @ map (\<lambda>(v, q). v mod 256) ?ps))"
    using ld bits codes stop by (rule decompress_payload)
  moreover have "map (\<lambda>(v, q). v mod 256) ?ps = S"
    using bytes by (induction S) simp_all
  ultimately show ?thesis using c by simp
qed

text \<open>
  C1, at a concrete input: the tree with the leaves 97, 98 and the sentinel, the input
  98 97 98 and the preorder description; the container is handed over at read position 4.
\<close>

theorem compress_decompress_roundtrip_witness:
  "(\<forall>rest. example_load (example_dump example_tree @ rest)
        = Inr (Some example_tree, length (example_dump example_tree)))
   \<and> None \<in> leaf_values example_tree
   \<and> (\<exists>c. compress example_dump example_tree [98, 97, 98] [] = Inr c
          \<and> decompress example_load \<lparr>content = c, pos = 4\<rparr> [] = Some (Inr ([] @ [98, 97, 98])))"
proof -
  have h1: "\<forall>rest. example_load (example_dump example_tree @ rest)
        = Inr (Some example_tree, length (example_dump example_tree))"
    by (simp add: example_load_dump)
  have h2: "\<forall>b\<in>set [98, 97, 98]. b < (256::nat)" by simp
  have h3: "None \<in> leaf_values example_tree" by (simp add: example_tree_def)
  have h4: "\<forall>b\<in>set [98, 97, 98]. Some b \<in> leaf_values example_tree"
    by (simp add: example_tree_def)
  from compress_decompress_roundtrip
      [where load = example_load and dump = example_dump and T = example_tree
         and S = "[98, 97, 98]" and p = 4 and written = "[]", OF h1 h2 h3 h4] h1 h2 h3 h4
  show ?thesis by blast
qed

text \<open>
  C2, as the code has it: when the bit source is exhausted before the traversal reaches
  a leaf, \<open>decode_byte\<close> returns \<open>None\<close>, the very value a sentinel leaf yields, and
  \<open>decompress\<close> takes it for the end of the stream: it returns normally with the bytes
  decoded up to that point. No failure is reported.
\<close>

theorem decompress_truncated_returns:
  assumes ld: "load (content f) = Inr (Some t, n)"
    and bits: "BitReader (drop n (content f)) = concat (map snd ps) @ tail"
    and codes: "\<forall>(v, p)\<in>set ps. descend t p = Some (TreeLeaf (Some v))"
    and short: "runs_out t tail"
  shows "decode_byte t tail = (None, [])
    \<and> decompress load f written = Some (Inr (written @ map (\<lambda>(v, p). v mod 256) ps))"
proof -
  have stop: "decode_byte t tail = (None, [])"
    using short by (rule runs_out_decode)
  moreover have "decompress load f written = Some (Inr (written @ map (\<lambda>(v, p). v mod 256) ps))"
    using ld bits codes stop by (rule decompress_payload)
  ultimately show ?thesis by simp
qed

text \<open>
  C2, at a concrete input: the container of 98 98 98 97 98 without its last byte. The
  payload byte 169 holds four whole codes and the first bit of the fifth.
\<close>

theorem decompress_truncated_returns_witness:
  "example_load (content \<lparr>content = example_dump example_tree @ [169], pos = 0\<rparr>)
      = Inr (Some example_tree, 7)
   \<and> BitReader (drop 7 (content \<lparr>content = example_dump example_tree @ [169], pos = 0\<rparr>))
      = concat (map snd [(98, [True, False]), (98, [True, False]), (98, [True, False]), (97, [False])])
        @ [True]
   \<and> runs_out example_tree [True]
   \<and> decode_byte example_tree [True] = (None, [])
   \<and> decompress example_load \<lparr>content = example_dump example_tree @ [169], pos = 0\<rparr> []
      = Some (Inr [98, 98, 98, 97])"
proof -
  let ?f = "\<lparr>content = example_dump example_tree @ [169], pos = 0\<rparr>"
  let ?ps = "[(98, [True, False]), (98, [True, False]), (98, [True, False]), (97::nat, [False])]"
  have h1: "example_load (content ?f) = Inr (Some example_tree, 7)" by code_simp
  have h2: "BitReader (drop 7 (content ?f)) = concat (map snd ?ps) @ [True]" by code_simp
  have h3: "\<forall>(v, p)\<in>set ?ps. descend example_tree p = Some (TreeLeaf (Some v))" by code_simp
  have h4: "runs_out example_tree [True]" by code_simp
  from decompress_truncated_returns [of example_load ?f example_tree 7 ?ps "[True]" "[]", OF h1 h2 h3 h4]
    h1 h2 h3 h4
  show ?thesis by simp
qed

text \<open>
  C2 as the specification states it fails: \<open>compress\<close> writes the payload bytes 169 and 96
  for the input 98 98 98 97 98; with the last byte removed the bits end after the first
  bit of the fifth code, \<open>decode_byte\<close> answers \<open>None\<close> there, and \<open>decompress\<close> returns
  normally with the four bytes 98 98 98 97.
\<close>

theorem decompress_truncated_counterexample:
  "compress example_dump example_tree [98, 98, 98, 97, 98] []
     = Inr (example_dump example_tree @ [169, 96])
   \<and> BitReader [169] = [True, False] @ [True, False] @ [True, False] @ [False] @ [True]
   \<and> runs_out example_tree [True]
   \<and> decode_byte example_tree [True] = (None, [])
   \<and> decompress example_load \<lparr>content = example_dump example_tree @ [169], pos = 0\<rparr> []
     = Some (Inr [98, 98, 98, 97])"
  by code_simp

text \<open>
  C3: on an empty compressed stream the loader raises \<open>EOFError\<close>, the handler in
  \<open>read_tree\<close> raises \<open>NameError\<close> in its turn, and that exception leaves \<open>decompress\<close>: the
  call neither returns with an empty output nor reports a malformed tree.
\<close>

theorem decompress_empty_stream_raises:
  "example_load [] = Inl EOFError
   \<and> read_tree example_load \<lparr>content = [], pos = 0\<rparr> = Inl NameError
   \<and> decompress example_load \<lparr>content = [], pos = 0\<rparr> [] = Some (Inl (NameError, []))"
  by (simp add: decompress_def read_tree_def seek_def example_load_def)

text \<open>
  C4: on a container whose payload is the codes of some symbols, then the code of the
  sentinel, then anything at all, the decode loop ends with the reader standing right
  behind the code of the sentinel and with one byte written per symbol before it; the
  sentinel itself and whatever follows it leave nothing in the output of \<open>decompress\<close>.
\<close>

theorem decompress_stops_at_sentinel:
  assumes ld: "load (content f) = Inr (Some t, n)"
    and bits: "BitReader (drop n (content f)) = concat (map snd ps) @ sc @ rest"
    and codes: "\<forall>(v, p)\<in>set ps. descend t p = Some (TreeLeaf (Some v))"
    and sentinel: "descend t sc = Some (TreeLeaf None)"
  shows "(case decode_byte t (concat (map snd ps) @ sc @ rest) of
            (val, rd) \<Rightarrow>
              decode_loop t val rd (BitWriter written)
                = Some (rest, \<lparr>stream = written @ map (\<lambda>(v, p). v mod 256) ps, pending = []\<rparr>))
    \<and> decompress load f written = Some (Inr (written @ map (\<lambda>(v, p). v mod 256) ps))"
proof -
  have stop: "decode_byte t (sc @ rest) = (None, rest)"
    using sentinel by (rule decode_byte_descend)
  obtain val rd where d: "decode_byte t (concat (map snd ps) @ sc @ rest) = (val, rd)"
    by (cases "decode_byte t (concat (map snd ps) @ sc @ rest)")
  have "decode_loop t val rd (BitWriter written)
      = Some (rest, fold (\<lambda>(v, p). writebits v 8) ps (BitWriter written))"
    using codes stop d by (rule decode_loop_payload)
  moreover have "fold (\<lambda>(v, p). writebits v 8) ps (BitWriter written)
      = \<lparr>stream = written @ map (\<lambda>(v, p). v mod 256) ps, pending = []\<rparr>"
    using fold_writebits_aligned [of "BitWriter written" ps] by (simp add: BitWriter_def)
  moreover have "decompress load f written = Some (Inr (written @ map (\<lambda>(v, p). v mod 256) ps))"
    using ld bits codes stop by (rule decompress_payload)
  ultimately show ?thesis by (simp add: d)
qed

text \<open>
  C4, at a concrete input: the container of 98 98 98 97 98 followed by a stray byte 170,
  whose bits would decode to further symbols.
\<close>

theorem decompress_stops_at_sentinel_witness:
  "example_load (content \<lparr>content = example_dump example_tree @ [169, 96, 170], pos = 2\<rparr>)
      = Inr (Some example_tree, 7)
   \<and> BitReader (drop 7 (content \<lparr>content = example_dump example_tree @ [169, 96, 170], pos = 2\<rparr>))
      = concat (map snd [(98, [True, False]), (98, [True, False]), (98, [True, False]),
                         (97, [False]), (98, [True, False])])
        @ [True, True] @ ([False, False, False, False, False] @ BitReader [170])
   \<and> descend example_tree [True, True] = Some (TreeLeaf None)
   \<and> decompress example_load \<lparr>content = example_dump example_tree @ [169, 96, 170], pos = 2\<rparr> []
      = Some (Inr [98, 98, 98, 97, 98])"
proof -
  let ?f = "\<lparr>content = example_dump example_tree @ [169, 96, 170], pos = 2\<rparr>"
  let ?ps = "[(98, [True, False]), (98, [True, False]), (98, [True, False]),
              (97::nat, [False]), (98, [True, False])]"
  have h1: "example_load (content ?f) = Inr (Some example_tree, 7)" by code_simp
  have h2: "BitReader (drop 7 (content ?f)) = concat (map snd ?ps) @ [True, True] @ ([False, False, False, False, False] @ BitReader [170])"
    by code_simp
  have h3: "\<forall>(v, p)\<in>set ?ps. descend example_tree p = Some (TreeLeaf (Some v))" by code_simp
  have h4: "descend example_tree [True, True] = Some (TreeLeaf None)" by code_simp
  from decompress_stops_at_sentinel
    [of example_load ?f example_tree 7 ?ps "[True, True]" "[False, False, False, False, False] @ BitReader [170]" "[]", OF h1 h2 h3 h4]
    h1 h2 h3 h4
  show ?thesis by simp
qed

text \<open>
  C5: when every byte of the input and the sentinel have an entry in the table,
  \<open>compress\<close> returns normally; behind the bytes already in the stream and the tree
  description it has written whole bytes whose bits are the entries of the input's bytes
  in order, then the entry of the sentinel, then fewer than eight bits that are all 0.
\<close>

theorem compress_ends_with_sentinel_and_padding:
  assumes bytes: "\<forall>b\<in>set S. b < 256"
    and entries: "\<forall>b\<in>set S. make_encoding_table t (Some b) \<noteq> None"
    and sentinel: "make_encoding_table t None = Some sc"
  shows "\<exists>ys k. compress dump t S pre = Inr (pre @ dump t @ ys)
     \<and> BitReader ys = encode_bits (make_encoding_table t) S @ sc @ replicate k False
     \<and> k < 8 \<and> (\<forall>y\<in>set ys. y < 256)"
proof -
  let ?tbl = "make_encoding_table t"
  let ?w = "write_tree dump t (BitWriter pre)"
  have w: "stream ?w = pre @ dump t" "pending ?w = []"
    by (simp_all add: write_tree_def BitWriter_def)
  have enc: "encode_loop ?tbl (BitReader S) ?w = Inr (fold writebit (encode_bits ?tbl S @ sc) ?w)"
    using bytes entries sentinel by (rule encode_loop_done)
  from written_stream [of ?w "encode_bits ?tbl S @ sc"] w obtain ys k where
    ys: "stream (flush (fold writebit (encode_bits ?tbl S @ sc) ?w)) = (pre @ dump t) @ ys"
        "BitReader ys = encode_bits ?tbl S @ sc @ replicate k False"
        "k < 8" "\<forall>y\<in>set ys. y < 256" by auto
  have "compress dump t S pre = Inr (pre @ dump t @ ys)"
    using enc ys(1) by (simp add: compress_def)
  with ys(2-4) show ?thesis by blast
qed

text \<open>
  C5, at a concrete input: 98 98 98 97 98 gives the payload bytes 169 and 96, the second
  ending in five 0 bits.
\<close>

theorem compress_ends_with_sentinel_and_padding_witness:
  "make_encoding_table example_tree None = Some [True, True]
   \<and> (\<exists>ys k. compress example_dump example_tree [98, 98, 98, 97, 98] [] 
          = Inr ([] @ example_dump example_tree @ ys)
        \<and> BitReader ys = encode_bits (make_encoding_table example_tree) [98, 98, 98, 97, 98]
             @ [True, True] @ replicate k False
        \<and> k < 8 \<and> (\<forall>y\<in>set ys. y < 256))
   \<and> compress example_dump example_tree [98, 98, 98, 97, 98] []
        = Inr (example_dump example_tree @ [169, 96])"
proof -
  have h1: "\<forall>b\<in>set [98, 98, 98, 97, 98]. b < (256::nat)" by simp
  have h2: "\<forall>b\<in>set [98, 98, 98, 97, 98]. make_encoding_table example_tree (Some b) \<noteq> None"
    by code_simp
  have h3: "make_encoding_table example_tree None = Some [True, True]" by code_simp
  have c: "compress example_dump example_tree [98, 98, 98, 97, 98] []
        = Inr (example_dump example_tree @ [169, 96])" by code_simp
  from compress_ends_with_sentinel_and_padding
    [of "[98, 98, 98, 97, 98]" example_tree "[True, True]" example_dump "[]", OF h1 h2 h3] h1 h2 h3 c
  show ?thesis by blast
qed

text \<open>
  C6: when some byte of the input has no entry in the table, \<open>compress\<close> raises
  \<open>KeyError\<close> for the first such byte. What the stream holds then is the tree description
  and whole bytes of the codes of the bytes before it: nothing was written for the byte
  itself or for any later byte, no sentinel and no padding.
\<close>

theorem compress_unencodable_symbol:
  assumes bytes: "\<forall>b\<in>set S. b < 256"
    and missing: "\<exists>b\<in>set S. make_encoding_table t (Some b) = None"
  shows "\<exists>S1 b S2 ys p. S = S1 @ b # S2
     \<and> (\<forall>x\<in>set S1. make_encoding_table t (Some x) \<noteq> None)
     \<and> make_encoding_table t (Some b) = None
     \<and> compress dump t S pre = Inl (KeyError (Some b), pre @ dump t @ ys)
     \<and> BitReader ys @ p = encode_bits (make_encoding_table t) S1 \<and> length p < 8"
proof -
  let ?tbl = "make_encoding_table t"
  from split_list_first_prop [OF missing] obtain S1 b S2 where
    S: "S = S1 @ b # S2" and b: "?tbl (Some b) = None"
    and S1: "\<forall>x\<in>set S1. ?tbl (Some x) \<noteq> None" by blast
  let ?w = "write_tree dump t (BitWriter pre)"
  have w: "stream ?w = pre @ dump t" "pending ?w = []"
    by (simp_all add: write_tree_def BitWriter_def)
  have enc: "encode_loop ?tbl (BitReader (S1 @ b # S2)) ?w
      = Inl (KeyError (Some b), fold writebit (encode_bits ?tbl S1) ?w)"
    using bytes S1 b unfolding S by (rule encode_loop_missing)
  from fold_writebit_stream [of ?w "encode_bits ?tbl S1"] w obtain ys where
    ys: "stream (fold writebit (encode_bits ?tbl S1) ?w) = (pre @ dump t) @ ys"
        "BitReader ys @ pending (fold writebit (encode_bits ?tbl S1) ?w) = encode_bits ?tbl S1"
        "length (pending (fold writebit (encode_bits ?tbl S1) ?w)) < 8" by auto
  have "compress dump t S pre = Inl (KeyError (Some b), pre @ dump t @ ys)"
    using enc ys(1) by (simp add: compress_def S)
  with S b S1 ys(2,3) show ?thesis by blast
qed

text \<open>
  C6, at a concrete input: 98 120 98 with a tree that has no leaf 120.
\<close>

theorem compress_unencodable_symbol_witness:
  "(\<exists>b\<in>set [98, 120, 98]. make_encoding_table example_tree (Some b) = None)
   \<and> (\<exists>S1 b S2 ys p. [98, 120, 98] = S1 @ b # S2
     \<and> (\<forall>x\<in>set S1. make_encoding_table example_tree (Some x) \<noteq> None)
     \<and> make_encoding_table example_tree (Some b) = None
     \<and> compress example_dump example_tree [98, 120, 98] [] 
          = Inl (KeyError (Some b), [] @ example_dump example_tree @ ys)
     \<and> BitReader ys @ p = encode_bits (make_encoding_table example_tree) S1 \<and> length p < 8)
   \<and> compress example_dump example_tree [98, 120, 98] []
        = Inl (KeyError (Some 120), example_dump example_tree)"
proof -
  have h1: "\<forall>b\<in>set [98, 120, 98]. b < (256::nat)" by simp
  have h2: "\<exists>b\<in>set [98, 120, 98]. make_encoding_table example_tree (Some b) = None"
    by code_simp
  have c: "compress example_dump example_tree [98, 120, 98] []
        = Inl (KeyError (Some 120), example_dump example_tree)" by code_simp
  from compress_unencodable_symbol [of "[98, 120, 98]" example_tree example_dump "[]", OF h1 h2]
    h1 h2 c
  show ?thesis by blast
qed

text \<open>
  C7: when a bit sequence leads from the root to a leaf, taking the left child on 0 and
  the right child on 1, a decode call on a source that starts with these bits returns the
  value of that leaf and leaves the source at the first bit behind them.
\<close>

theorem decode_byte_follows_path:
  assumes "descend t path = Some (TreeLeaf v)"
  shows "decode_byte t (path @ rest) = (v, rest)"
  using assms by (rule decode_byte_descend)

text \<open>
  C7, at a concrete input: the bits 1 0 lead to the leaf 98; the three bits behind them
  stay unread.
\<close>

theorem decode_byte_follows_path_witness:
  "descend example_tree [True, False] = Some (TreeLeaf (Some 98))
   \<and> decode_byte example_tree ([True, False] @ [True, True, False]) = (Some 98, [True, True, False])"
proof -
  have h: "descend example_tree [True, False] = Some (TreeLeaf (Some 98))"
    by (simp add: example_tree_def)
  from decode_byte_follows_path [OF h, of "[True, True, False]"] h show ?thesis by simp
qed

text \<open>
  C8: when the root of the tree is a leaf, a decode call returns the value of that leaf
  and leaves the bit source as it was: no bit is consumed.
\<close>

theorem decode_byte_single_leaf: "decode_byte (TreeLeaf v) rd = (v, rd)"
  by simp

text \<open>
  C9: \<open>read_tree\<close> and \<open>decompress\<close> give the same result whatever the read position of
  the stream is when they are called. In \<open>read_tree\<close> the loader is handed the content of
  the stream from offset 0, and the position afterwards is the number of bytes it
  consumed. Every call of \<open>decompress\<close> does the same: its outcome is the one determined by
  the loader's answer on the content from offset 0, and the payload it decodes is what
  follows the bytes the loader consumed from there.
\<close>

theorem read_tree_rewinds:
  "read_tree load (f\<lparr>pos := p\<rparr>) = read_tree load (f\<lparr>pos := 0\<rparr>)
   \<and> decompress load (f\<lparr>pos := p\<rparr>) written = decompress load (f\<lparr>pos := 0\<rparr>) written
   \<and> read_tree load f =
       (case load (content f) of
          Inr (obj, n) \<Rightarrow> Inr (obj, f\<lparr>pos := n\<rparr>)
        | Inl e \<Rightarrow> Inl (if e = EOFError then NameError else e))
   \<and> decompress load f written =
       (case load (content f) of
          Inl e \<Rightarrow> Some (Inl (if e = EOFError then NameError else e, written))
        | Inr (obj, n) \<Rightarrow>
            (case obj of
               None \<Rightarrow> Some (Inr written)
             | Some t \<Rightarrow>
                 (case decode_byte t (BitReader (drop n (content f))) of
                    (val, rd) \<Rightarrow>
                      map_option (\<lambda>(rd', w). Inr (stream (flush w)))
                        (decode_loop t val rd (BitWriter written)))))"
proof -
  have rt: "read_tree load g =
      (case load (content g) of
         Inr (obj, n) \<Rightarrow> Inr (obj, g\<lparr>pos := n\<rparr>)
       | Inl e \<Rightarrow> Inl (if e = EOFError then NameError else e))" for g
    by (simp add: read_tree_def seek_def split: sum.splits)
  have dc: "decompress load g written =
      (case load (content g) of
         Inl e \<Rightarrow> Some (Inl (if e = EOFError then NameError else e, written))
       | Inr (obj, n) \<Rightarrow>
           (case obj of
              None \<Rightarrow> Some (Inr written)
            | Some t \<Rightarrow>
                (case decode_byte t (BitReader (drop n (content g))) of
                   (val, rd) \<Rightarrow>
                     map_option (\<lambda>(rd', w). Inr (stream (flush w)))
                       (decode_loop t val rd (BitWriter written)))))" for g
    by (simp add: decompress_def rt split: sum.splits option.splits)
  have "read_tree load (f\<lparr>pos := p\<rparr>) = read_tree load (f\<lparr>pos := 0\<rparr>)"
    by (simp add: rt split: sum.splits)
  moreover have "decompress load (f\<lparr>pos := p\<rparr>) written
      = decompress load (f\<lparr>pos := 0\<rparr>) written"
    by (simp add: dc split: sum.splits option.splits)
  ultimately show ?thesis using rt [of f] dc [of f] by simp
qed

text \<open>
  C10: when the table has no entry for the sentinel, \<open>compress\<close> always ends in a
  \<open>KeyError\<close>; when moreover every byte of the input has an entry, the input is read to
  its end and the key of the error is the sentinel. The stream then holds the tree
  description and whole bytes of the codes of the input: no code of a sentinel, and the
  bits pending in the writer are never flushed.
\<close>

theorem compress_without_sentinel_entry:
  assumes bytes: "\<forall>b\<in>set S. b < 256"
    and no_sentinel: "make_encoding_table t None = None"
  shows "(\<exists>k left. compress dump t S pre = Inl (KeyError k, left))
    \<and> ((\<forall>b\<in>set S. make_encoding_table t (Some b) \<noteq> None) \<longrightarrow>
         (\<exists>ys p. compress dump t S pre = Inl (KeyError None, pre @ dump t @ ys)
            \<and> BitReader ys @ p = encode_bits (make_encoding_table t) S \<and> length p < 8))"
proof -
  let ?tbl = "make_encoding_table t"
  let ?w = "write_tree dump t (BitWriter pre)"
  have w: "stream ?w = pre @ dump t" "pending ?w = []"
    by (simp_all add: write_tree_def BitWriter_def)
  have covered: "\<exists>ys p. compress dump t S pre = Inl (KeyError None, pre @ dump t @ ys)
            \<and> BitReader ys @ p = encode_bits ?tbl S \<and> length p < 8"
    if entries: "\<forall>b\<in>set S. ?tbl (Some b) \<noteq> None"
  proof -
    have enc: "encode_loop ?tbl (BitReader S) ?w
        = Inl (KeyError None, fold writebit (encode_bits ?tbl S) ?w)"
      using bytes entries no_sentinel by (rule encode_loop_no_sentinel)
    from fold_writebit_stream [of ?w "encode_bits ?tbl S"] w obtain ys where
      ys: "stream (fold writebit (encode_bits ?tbl S) ?w) = (pre @ dump t) @ ys"
          "BitReader ys @ pending (fold writebit (encode_bits ?tbl S) ?w) = encode_bits ?tbl S"
          "length (pending (fold writebit (encode_bits ?tbl S) ?w)) < 8" by auto
    have "compress dump t S pre = Inl (KeyError None, pre @ dump t @ ys)"
      using enc ys(1) by (simp add: compress_def)
    with ys(2,3) show ?thesis by blast
  qed
  have "\<exists>k left. compress dump t S pre = Inl (KeyError k, left)"
  proof (cases "\<forall>b\<in>set S. ?tbl (Some b) \<noteq> None")
    case True
    from covered [OF True] show ?thesis by blast
  next
    case False
    then have "\<exists>b\<in>set S. ?tbl (Some b) = None" by simp
    from split_list_first_prop [OF this] obtain S1 b S2 where
      S: "S = S1 @ b # S2" and b: "?tbl (Some b) = None"
      and S1: "\<forall>x\<in>set S1. ?tbl (Some x) \<noteq> None" by blast
    have "encode_loop ?tbl (BitReader (S1 @ b # S2)) ?w
        = Inl (KeyError (Some b), fold writebit (encode_bits ?tbl S1) ?w)"
      using bytes S1 b unfolding S by (rule encode_loop_missing)
    then show ?thesis by (simp add: compress_def S)
  qed
  with covered show ?thesis by blast
qed

text \<open>
  C10, at a concrete input: a tree with the leaves 97 and 98 only, and the input
  98 97 98.
\<close>

theorem compress_without_sentinel_entry_witness:
  "make_encoding_table example_tree_no_sentinel None = None
   \<and> (\<exists>ys p. compress example_dump example_tree_no_sentinel [98, 97, 98] []
          = Inl (KeyError None, [] @ example_dump example_tree_no_sentinel @ ys)
        \<and> BitReader ys @ p = encode_bits (make_encoding_table example_tree_no_sentinel) [98, 97, 98]
        \<and> length p < 8)
   \<and> compress example_dump example_tree_no_sentinel [98, 97, 98] []
        = Inl (KeyError None, example_dump example_tree_no_sentinel)"
proof -
  have h1: "\<forall>b\<in>set [98, 97, 98]. b < (256::nat)" by simp
  have h2: "make_encoding_table example_tree_no_sentinel None = None" by code_simp
  have h3: "\<forall>b\<in>set [98, 97, 98]. make_encoding_table example_tree_no_sentinel (Some b) \<noteq> None"
    by code_simp
  have c: "compress example_dump example_tree_no_sentinel [98, 97, 98] []
        = Inl (KeyError None, example_dump example_tree_no_sentinel)" by code_simp
  from compress_without_sentinel_entry
    [of "[98, 97, 98]" example_tree_no_sentinel example_dump "[]", OF h1 h2] h1 h2 h3 c
  show ?thesis by blast
qed

end
